theory Spec2Isabelle
  imports Main "HOL-Library.Multiset"
begin

section \<open>Booklet page ordering (assets/24/make\_booklet.py)\<close>

text \<open>
  The two pure functions of the script, \<^verbatim>\<open>booklet_pages\<close> (the spec's
  \<^verbatim>\<open>compute_sheets\<close>) and \<^verbatim>\<open>booklet_pages_to_list\<close> (the spec's
  \<^verbatim>\<open>flatten\<close>). Python integers are unbounded, so page numbers are \<open>int\<close>;
  Python's \<^verbatim>\<open>%\<close> with the positive divisor 4 is floor modulo, which is HOL's
  \<open>mod\<close> on \<open>int\<close>. The \<^verbatim>\<open>logging.debug\<close> calls have no effect on the value returned
  and are left out of \<open>booklet_loop\<close> and \<open>booklet_pages\<close>. Their messages are f-strings,
  built before the call whatever the log level, and formatting an integer can raise:
  \<open>booklet_pages_log\<close> below is the function with that outcome.
\<close>

subsection \<open>Data model\<close>

text \<open>A sheet is the 4-tuple (outer-right, outer-left, inner-left, inner-right).\<close>

type_synonym sheet = "int \<times> int \<times> int \<times> int"

subsection \<open>The loop of \<^verbatim>\<open>booklet_pages\<close> (lines 35--45)\<close>

text \<open>
  \<^verbatim>\<open>
    while left < right:
        sheet = (right + offset, left + offset, left + 1 + offset, right - 1 + offset)
        sheets.append(sheet)
        left += 2
        right -= 2
  \<close>
  The loop state is \<open>left\<close>, \<open>right\<close> and the list \<open>sheets\<close>; \<open>offset\<close> is constant.
  The distance \<open>right - left\<close> shrinks by 4 in every iteration, which is the measure.
\<close>

function booklet_loop :: "int \<Rightarrow> int \<Rightarrow> int \<Rightarrow> sheet list \<Rightarrow> sheet list" where
  "booklet_loop left right offset sheets =
     (if left < right
      then booklet_loop (left + 2) (right - 2) offset
             (sheets @ [(right + offset, left + offset, left + 1 + offset, right - 1 + offset)])
      else sheets)"
  by pat_completeness auto
termination
  by (relation "measure (\<lambda>(left, right, offset, sheets). nat (right - left))") auto

declare booklet_loop.simps [simp del]

subsection \<open>\<^verbatim>\<open>booklet_pages\<close> (lines 14--47)\<close>

text \<open>
  \<^verbatim>\<open>
    n = int(n + (4 - n % 4) % 4)
    sheets = []
    left = 1
    right = n
    offset = start_page - 1
    while ...
    return sheets
  \<close>
\<close>

definition booklet_pages :: "int \<Rightarrow> int \<Rightarrow> sheet list" where
  "booklet_pages n start_page =
     (let n = n + (4 - n mod 4) mod 4;
          sheets = [];
          left = 1;
          right = n;
          offset = start_page - 1
      in booklet_loop left right offset sheets)"

subsection \<open>\<^verbatim>\<open>booklet_pages_to_list\<close> (lines 49--61)\<close>

text \<open>\<^verbatim>\<open>[page for sheet in booklet_sheets for page in sheet]\<close>\<close>

definition booklet_pages_to_list :: "sheet list \<Rightarrow> int list" where
  "booklet_pages_to_list booklet_sheets =
     concat (map (\<lambda>(p1, p2, p3, p4). [p1, p2, p3, p4]) booklet_sheets)"

subsection \<open>The loop without a termination assumption\<close>



subsection \<open>The log messages (lines 25, 29 and 43)\<close>

text \<open>
  \<^verbatim>\<open>
    logging.debug(f"Calculating booklet pages for total pages: {n}, starting at page: {start_page}")
    logging.debug(f"Adjusted total pages to nearest multiple of 4: {n}")
    logging.debug(f"Added sheet: {sheet}")
  \<close>
  An f-string is evaluated before \<^verbatim>\<open>logging.debug\<close> is entered, so each message is
  built on every call. Converting an \<^verbatim>\<open>int\<close> to its decimal string raises
  \<^verbatim>\<open>ValueError\<close> when the number, sign aside, has more digits than the interpreter's
  limit (\<^verbatim>\<open>sys.get_int_max_str_digits()\<close>: 4300 by default, 0 for no limit, as on an
  interpreter that has no such limit). The limit belongs to the interpreter, not to the
  script, and is a parameter here; the interpreter admits 0 and values from 640 on.
\<close>

datatype error = ValueError

text \<open>\<open>x\<close> has at most \<open>max_str_digits\<close> decimal digits, or there is no limit.\<close>

definition int_str_ok :: "nat \<Rightarrow> int \<Rightarrow> bool" where
  "int_str_ok max_str_digits x =
     (if max_str_digits = 0 then True else \<bar>x\<bar> < 10 ^ max_str_digits)"

text \<open>Formatting a tuple formats its four numbers.\<close>

definition sheet_str_ok :: "nat \<Rightarrow> sheet \<Rightarrow> bool" where
  "sheet_str_ok max_str_digits =
     (\<lambda>(p1, p2, p3, p4). int_str_ok max_str_digits p1 \<and> int_str_ok max_str_digits p2 \<and>
        int_str_ok max_str_digits p3 \<and> int_str_ok max_str_digits p4)"

text \<open>
  The loop with line 43: the sheet is appended, then its message is built. \<open>None\<close> is a
  loop that never leaves, \<open>Some (Inl ValueError)\<close> a raised exception, \<open>Some (Inr sheets)\<close>
  the list at the loop's exit.
\<close>

partial_function (option) booklet_while_log ::
  "nat \<Rightarrow> int \<Rightarrow> int \<Rightarrow> int \<Rightarrow> sheet list \<Rightarrow> (error + sheet list) option" where
  "booklet_while_log max_str_digits left right offset sheets =
     (if left < right
      then (if sheet_str_ok max_str_digits
                 (right + offset, left + offset, left + 1 + offset, right - 1 + offset)
            then booklet_while_log max_str_digits (left + 2) (right - 2) offset
                   (sheets @
                    [(right + offset, left + offset, left + 1 + offset, right - 1 + offset)])
            else Some (Inl ValueError))
      else Some (Inr sheets))"

text \<open>The function with lines 25 and 29: the first message holds \<^verbatim>\<open>n\<close> as passed and
  \<^verbatim>\<open>start_page\<close>, the second the rounded \<^verbatim>\<open>n\<close>.\<close>

definition booklet_pages_log :: "nat \<Rightarrow> int \<Rightarrow> int \<Rightarrow> (error + sheet list) option" where
  "booklet_pages_log max_str_digits n start_page =
     (if int_str_ok max_str_digits n \<and> int_str_ok max_str_digits start_page
      then (let n = n + (4 - n mod 4) mod 4
            in if int_str_ok max_str_digits n
               then (let sheets = [];
                         left = 1;
                         right = n;
                         offset = start_page - 1
                     in booklet_while_log max_str_digits left right offset sheets)
               else Some (Inl ValueError))
      else Some (Inl ValueError))"

subsection \<open>Shifting every page number of a sequence\<close>

text \<open>Used to state the start-page law: every element of every tuple moved by \<open>d\<close>.\<close>

definition shift_sheet :: "int \<Rightarrow> sheet \<Rightarrow> sheet" where
  "shift_sheet d = (\<lambda>(p1, p2, p3, p4). (p1 + d, p2 + d, p3 + d, p4 + d))"

section \<open>Rounding up to a multiple of 4\<close>

text \<open>Rounding a rounded count changes nothing.\<close>

lemma round_up_idem:
  "(n + (4 - n mod 4) mod 4) + (4 - (n + (4 - n mod 4) mod 4) mod 4) mod 4 =
     n + (4 - n mod 4) mod (4::int)"
  by presburger

section \<open>The loop\<close>

text \<open>
  From a state \<open>(left, right)\<close> the body runs \<open>\<lceil>(right - left) / 4\<rceil>\<close> times, or not at
  all when \<open>right \<le> left\<close>; both are \<open>nat ((right - left + 3) div 4)\<close>.
\<close>

lemma iters_step:
  assumes "left < (right::int)"
  shows "nat ((right - 2 - (left + 2) + 3) div 4) + 1 = nat ((right - left + 3) div 4)"
proof -
  have a: "(right - 2 - (left + 2) + 3) div 4 = (right - left + 3) div 4 - 1" by presburger
  have b: "1 \<le> (right - left + 3) div 4" using assms by presburger
  show ?thesis unfolding a using b by simp
qed

lemma iters_stop:
  assumes "\<not> left < (right::int)"
  shows "nat ((right - left + 3) div 4) = 0"
proof -
  have "(right - left + 3) div 4 \<le> 0" using assms by presburger
  then show ?thesis by simp
qed

lemma booklet_loop_length:
  "length (booklet_loop left right offset sheets) = length sheets + nat ((right - left + 3) div 4)"
proof (induction left right offset sheets rule: booklet_loop.induct)
  case (1 left right offset sheets)
  show ?case
  proof (cases "left < right")
    case True
    have "nat ((right - 2 - (left + 2) + 3) div 4) + 1 = nat ((right - left + 3) div 4)"
      using True by (rule iters_step)
    with True "1" show ?thesis
      by (simp add: booklet_loop.simps [of left right])
  next
    case False
    then have "nat ((right - left + 3) div 4) = 0" by (rule iters_stop)
    with False show ?thesis
      by (simp add: booklet_loop.simps [of left right])
  qed
qed


lemma flatten_append:
  "booklet_pages_to_list (xs @ ys) = booklet_pages_to_list xs @ booklet_pages_to_list ys"
  by (simp add: booklet_pages_to_list_def)

lemma flatten_single:
  "booklet_pages_to_list [(p1, p2, p3, p4)] = [p1, p2, p3, p4]"
  by (simp add: booklet_pages_to_list_def)

lemma upto_peel:
  assumes "l + 3 \<le> (r::int)"
  shows "mset [l..r] = {#l, l + 1, r - 1, r#} + mset [l + 2..r - 2]"
proof -
  have a: "[l..r] = l # [l + 1..r]" using assms by (simp add: upto_rec1)
  have b: "[l + 1..r] = (l + 1) # [l + 2..r]" using assms by (simp add: upto_rec1)
  have c: "[l + 2..r] = [l + 2..r - 1] @ [r]" using assms by (simp add: upto_rec2)
  have d: "[l + 2..r - 1] = [l + 2..r - 2] @ [r - 1]"
    using assms upto_rec2 [of "l + 2" "r - 1"] by simp
  show ?thesis by (simp add: a b c d)
qed

lemma booklet_loop_mset:
  "(right - left + 1) mod 4 = 0 \<Longrightarrow> left \<le> right + 1 \<Longrightarrow>
   mset (booklet_pages_to_list (booklet_loop left right offset sheets)) =
     mset (booklet_pages_to_list sheets) + mset [left + offset..right + offset]"
proof (induction left right offset sheets rule: booklet_loop.induct)
  case (1 left right offset sheets)
  show ?case
  proof (cases "left < right")
    case True
    with "1.prems" have far: "left + 3 \<le> right" by presburger
    have m: "(right - 2 - (left + 2) + 1) mod 4 = 0" using "1.prems"(1) by presburger
    have le: "left + 2 \<le> right - 2 + 1" using far by simp
    have peel: "mset [left + offset..right + offset] =
        {#right + offset, left + offset, left + 1 + offset, right - 1 + offset#} +
        mset [left + 2 + offset..right - 2 + offset]"
    proof -
      have e: "left + offset + 1 = left + 1 + offset" "right + offset - 1 = right - 1 + offset"
        "left + offset + 2 = left + 2 + offset" "right + offset - 2 = right - 2 + offset"
        by simp_all
      have "left + offset + 3 \<le> right + offset" using far by simp
      from upto_peel [OF this] show ?thesis unfolding e by simp
    qed
    have step: "booklet_loop left right offset sheets = booklet_loop (left + 2) (right - 2) offset
             (sheets @ [(right + offset, left + offset, left + 1 + offset, right - 1 + offset)])"
      using True by (simp add: booklet_loop.simps [of left right])
    show ?thesis
      unfolding step "1.IH" [OF True m le] peel
      by (simp add: flatten_append flatten_single)
  next
    case False
    with "1.prems" have "right = left - 1" by presburger
    then show ?thesis
      by (simp add: booklet_loop.simps [of left "left - 1"])
  qed
qed

lemma booklet_loop_shift:
  "map (shift_sheet d) (booklet_loop left right offset sheets) =
     booklet_loop left right (offset + d) (map (shift_sheet d) sheets)"
proof (induction left right offset sheets rule: booklet_loop.induct)
  case (1 left right offset sheets)
  show ?case
  proof (cases "left < right")
    case True
    with "1" show ?thesis
      by (simp add: booklet_loop.simps [of left right] shift_sheet_def add_ac)
  next
    case False
    then show ?thesis
      by (simp add: booklet_loop.simps [of left right])
  qed
qed

lemma booklet_loop_sums:
  "\<forall>(p1, p2, p3, p4) \<in> set sheets. p1 + p2 = c \<and> p4 + p3 = c \<Longrightarrow>
   c = left + right + 2 * offset \<Longrightarrow>
   \<forall>(p1, p2, p3, p4) \<in> set (booklet_loop left right offset sheets). p1 + p2 = c \<and> p4 + p3 = c"
proof (induction left right offset sheets rule: booklet_loop.induct)
  case (1 left right offset sheets)
  show ?case
  proof (cases "left < right")
    case True
    have "\<forall>(p1, p2, p3, p4) \<in> set (booklet_loop (left + 2) (right - 2) offset
             (sheets @ [(right + offset, left + offset, left + 1 + offset, right - 1 + offset)])).
            p1 + p2 = c \<and> p4 + p3 = c"
      using "1.prems" by (intro "1.IH" [OF True]) auto
    with True show ?thesis
      by (simp add: booklet_loop.simps [of left right])
  next
    case False
    with "1.prems" show ?thesis
      by (simp add: booklet_loop.simps [of left right])
  qed
qed

subsection \<open>The loop with its log messages\<close>

text \<open>
  The loop with messages always leaves: it raises when one of the sheets the plain loop
  would add cannot be formatted, and returns the plain loop's list otherwise.
\<close>

lemma int_str_ok_unlimited: "int_str_ok 0 x"
  by (simp add: int_str_ok_def)

lemma sheet_str_ok_unlimited: "sheet_str_ok 0 sheet"
  by (cases sheet) (simp add: sheet_str_ok_def int_str_ok_unlimited)

lemma int_str_ok_small: "\<bar>x\<bar> < 10 \<Longrightarrow> int_str_ok d x"
proof (cases "d = 0")
  case True
  then show ?thesis by (simp add: int_str_ok_def)
next
  case False
  assume small: "\<bar>x\<bar> < 10"
  from False have "1 \<le> d" by simp
  then have "(10::int) ^ 1 \<le> 10 ^ d" by (intro power_increasing) simp_all
  with small have "\<bar>x\<bar> < 10 ^ d" by simp
  with False show ?thesis by (simp add: int_str_ok_def)
qed

lemma int_str_ok_power: "0 < d \<Longrightarrow> \<not> int_str_ok d (10 ^ d)"
  by (simp add: int_str_ok_def)

lemma booklet_loop_acc:
  "booklet_loop left right offset sheets = sheets @ booklet_loop left right offset []"
proof (induction "nat (right - left)" arbitrary: left right sheets rule: less_induct)
  case less
  show ?case
  proof (cases "left < right")
    case True
    let ?t = "(right + offset, left + offset, left + 1 + offset, right - 1 + offset)"
    have closer: "nat (right - 2 - (left + 2)) < nat (right - left)" using True by simp
    have "booklet_loop left right offset sheets =
            (sheets @ [?t]) @ booklet_loop (left + 2) (right - 2) offset []"
      using True less [OF closer, of "sheets @ [?t]"]
      by (simp add: booklet_loop.simps [of left right])
    moreover have "booklet_loop left right offset [] =
            [?t] @ booklet_loop (left + 2) (right - 2) offset []"
      using True less [OF closer, of "[?t]"]
      by (simp add: booklet_loop.simps [of left right])
    ultimately show ?thesis by simp
  next
    case False
    then show ?thesis by (simp add: booklet_loop.simps [of left right])
  qed
qed

lemma booklet_loop_step:
  assumes "left < right"
  shows "booklet_loop left right offset [] =
           (right + offset, left + offset, left + 1 + offset, right - 1 + offset) #
           booklet_loop (left + 2) (right - 2) offset []"
proof -
  let ?t = "(right + offset, left + offset, left + 1 + offset, right - 1 + offset)"
  have "booklet_loop left right offset [] = booklet_loop (left + 2) (right - 2) offset [?t]"
    using assms by (simp add: booklet_loop.simps [of left right])
  also have "\<dots> = [?t] @ booklet_loop (left + 2) (right - 2) offset []"
    by (rule booklet_loop_acc)
  finally show ?thesis by simp
qed

lemma booklet_while_log_result:
  "booklet_while_log d left right offset sheets =
     Some (if list_all (sheet_str_ok d) (booklet_loop left right offset [])
           then Inr (booklet_loop left right offset sheets) else Inl ValueError)"
proof (induction left right offset sheets rule: booklet_loop.induct)
  case (1 left right offset sheets)
  show ?case
  proof (cases "left < right")
    case True
    let ?t = "(right + offset, left + offset, left + 1 + offset, right - 1 + offset)"
    have nxt: "booklet_loop left right offset sheets =
                 booklet_loop (left + 2) (right - 2) offset (sheets @ [?t])"
      using True by (simp add: booklet_loop.simps [of left right])
    show ?thesis
    proof (cases "sheet_str_ok d ?t")
      case ok: True
      have "booklet_while_log d left right offset sheets =
              booklet_while_log d (left + 2) (right - 2) offset (sheets @ [?t])"
        using True ok by (simp add: booklet_while_log.simps [of d left right])
      then show ?thesis
        unfolding "1" [OF True] booklet_loop_step [OF True] nxt using ok by simp
    next
      case bad: False
      have "booklet_while_log d left right offset sheets = Some (Inl ValueError)"
        using True bad by (simp add: booklet_while_log.simps [of d left right])
      then show ?thesis
        unfolding booklet_loop_step [OF True] using bad by simp
    qed
  next
    case False
    then show ?thesis
      by (simp add: booklet_loop.simps [of left right] booklet_while_log.simps [of d left right])
  qed
qed

lemma booklet_pages_log_bad_start:
  "\<not> int_str_ok d start_page \<Longrightarrow> booklet_pages_log d n start_page = Some (Inl ValueError)"
  by (simp add: booklet_pages_log_def)

section \<open>Concrete sequences\<close>

text \<open>
  Claim C3. \<^verbatim>\<open>booklet_pages(12, 1)\<close> is exactly \<open>[(12,1,2,11),(10,3,4,9),(8,5,6,7)]\<close>, and
  flattening it gives exactly \<open>[12,1,2,11,10,3,4,9,8,5,6,7]\<close>.
\<close>

theorem booklet_pages_12_1:
  "booklet_pages 12 1 = [(12, 1, 2, 11), (10, 3, 4, 9), (8, 5, 6, 7)] \<and>
   booklet_pages_to_list (booklet_pages 12 1) = [12, 1, 2, 11, 10, 3, 4, 9, 8, 5, 6, 7]"
  by (simp add: booklet_pages_def booklet_pages_to_list_def booklet_loop.simps)

text \<open>
  Claim C8. \<^verbatim>\<open>booklet_pages(0, 1)\<close> is the empty sequence, and \<^verbatim>\<open>booklet_pages(4, 1)\<close> is
  exactly the one-sheet sequence \<open>[(4,1,2,3)]\<close>.
\<close>

theorem booklet_pages_0_and_4:
  "booklet_pages 0 1 = [] \<and> booklet_pages 4 1 = [(4, 1, 2, 3)]"
  by (simp add: booklet_pages_def booklet_loop.simps)

section \<open>Properties of \<^verbatim>\<open>booklet_pages\<close>\<close>

text \<open>The body of \<^verbatim>\<open>booklet_pages\<close> with its local variables substituted.\<close>

lemma booklet_pages_unfold:
  "booklet_pages n start_page = booklet_loop 1 (n + (4 - n mod 4) mod 4) (start_page - 1) []"
  unfolding booklet_pages_def Let_def ..


text \<open>
  Claim C1. For every \<open>n \<ge> 0\<close> and every \<open>start_page\<close>, the page numbers across all
  tuples of \<^verbatim>\<open>booklet_pages(n, start_page)\<close>, as a multiset, are exactly the range
  from \<open>start_page\<close> to \<open>start_page + n' - 1\<close>, each once, where
  \<open>n' = n + (4 - n % 4) % 4\<close>: no page is repeated and none is left out.
\<close>

theorem booklet_pages_bijection:
  assumes "0 \<le> n"
  shows "mset (booklet_pages_to_list (booklet_pages n start_page)) =
           mset [start_page..start_page + (n + (4 - n mod 4) mod 4) - 1] \<and>
         distinct (booklet_pages_to_list (booklet_pages n start_page)) \<and>
         set (booklet_pages_to_list (booklet_pages n start_page)) =
           {start_page..start_page + (n + (4 - n mod 4) mod 4) - 1}"
proof -
  define N where "N = n + (4 - n mod 4) mod 4"
  have m: "(N - 1 + 1) mod 4 = 0" unfolding N_def by presburger
  have le: "1 \<le> N + 1" using assms unfolding N_def by presburger
  have e: "1 + (start_page - 1) = start_page" "N + (start_page - 1) = start_page + N - 1"
    by simp_all
  have pu: "booklet_pages n start_page = booklet_loop 1 N (start_page - 1) []"
    unfolding N_def by (rule booklet_pages_unfold)
  have "mset (booklet_pages_to_list (booklet_loop 1 N (start_page - 1) [])) =
          mset (booklet_pages_to_list []) + mset [1 + (start_page - 1)..N + (start_page - 1)]"
    using m le by (rule booklet_loop_mset)
  then have "mset (booklet_pages_to_list (booklet_loop 1 N (start_page - 1) [])) =
          mset (booklet_pages_to_list []) + mset [start_page..start_page + N - 1]"
    unfolding e .
  then have ms: "mset (booklet_pages_to_list (booklet_pages n start_page)) =
           mset [start_page..start_page + N - 1]"
    unfolding pu by (simp add: booklet_pages_to_list_def)
  have d: "distinct (booklet_pages_to_list (booklet_pages n start_page))"
    using mset_eq_imp_distinct_iff [OF ms] by simp
  have s: "set (booklet_pages_to_list (booklet_pages n start_page)) =
           {start_page..start_page + N - 1}"
    using mset_eq_setD [OF ms] by simp
  from ms d s show ?thesis unfolding N_def by blast
qed

theorem booklet_pages_bijection_witness:
  "(0::int) \<le> 10 \<and>
   mset (booklet_pages_to_list (booklet_pages 10 (-3))) = mset [-3..8] \<and>
   distinct (booklet_pages_to_list (booklet_pages 10 (-3))) \<and>
   set (booklet_pages_to_list (booklet_pages 10 (-3))) = {-3..8}"
  using booklet_pages_bijection [of 10 "-3"] by simp

text \<open>
  Claim C2. For every \<open>n \<ge> 0\<close>, the flat page order of \<^verbatim>\<open>booklet_pages(n, 1)\<close> has
  length \<open>n + (4 - n % 4) % 4\<close> (the padding law).
\<close>

theorem padding_law:
  assumes "0 \<le> n"
  shows "int (length (booklet_pages_to_list (booklet_pages n 1))) = n + (4 - n mod 4) mod 4"
proof -
  let ?n' = "n + (4 - n mod 4) mod 4"
  have four: "length (booklet_pages_to_list xs) = 4 * length xs" for xs
    by (induction xs) (auto simp: booklet_pages_to_list_def)
  have len: "length (booklet_pages n 1) = nat ((?n' - 1 + 3) div 4)"
    by (simp add: booklet_pages_def Let_def booklet_loop_length)
  have "4 * ((?n' - 1 + 3) div 4) = ?n'" by presburger
  moreover have "0 \<le> (?n' - 1 + 3) div 4" using assms by presburger
  ultimately show ?thesis unfolding four len by simp
qed

theorem padding_law_witness:
  "(0::int) \<le> 10 \<and> int (length (booklet_pages_to_list (booklet_pages 10 1))) = 12"
  using padding_law [of 10] by simp



text \<open>
  Claim C5. For every \<open>n \<ge> 0\<close> and all \<open>s\<close>, \<open>t\<close>, \<^verbatim>\<open>booklet_pages(n, s)\<close> is
  \<^verbatim>\<open>booklet_pages(n, t)\<close> with every tuple element moved by \<open>s - t\<close>; in particular
  \<^verbatim>\<open>booklet_pages(8, 5)\<close> is \<^verbatim>\<open>booklet_pages(8, 1)\<close> with every element plus 4.
\<close>

theorem start_page_shift:
  assumes "0 \<le> n"
  shows "booklet_pages n s = map (shift_sheet (s - t)) (booklet_pages n t) \<and>
         booklet_pages 8 5 = map (shift_sheet 4) (booklet_pages 8 1)"
proof -
  have gen: "booklet_pages m a = map (shift_sheet (a - b)) (booklet_pages m b)" for m a b
    by (simp add: booklet_pages_def Let_def booklet_loop_shift)
  from gen [of n s t] gen [of 8 5 1] show ?thesis by simp
qed

theorem start_page_shift_witness:
  "(0::int) \<le> 8 \<and> booklet_pages 8 (-2) = map (shift_sheet (-3)) (booklet_pages 8 1)"
  using start_page_shift [of 8 "-2" 1] by simp

text \<open>
  Claim C6. For every \<open>n\<close> that is not a multiple of 4 and every \<open>start_page\<close>,
  \<^verbatim>\<open>booklet_pages(n, start_page)\<close> equals \<^verbatim>\<open>booklet_pages(n', start_page)\<close> with \<open>n'\<close> the
  next multiple of 4; in particular 10 pages give the same sequence as 12, for every
  start page.
\<close>

theorem padding_identical:
  assumes "n mod 4 \<noteq> 0"
  shows "booklet_pages n start_page = booklet_pages (n + (4 - n mod 4) mod 4) start_page \<and>
         booklet_pages 10 start_page = booklet_pages 12 start_page"
proof -
  have gen: "booklet_pages m start_page = booklet_pages (m + (4 - m mod 4) mod 4) start_page" for m
    unfolding booklet_pages_def Let_def round_up_idem ..
  from gen [of n] gen [of 10] show ?thesis by simp
qed

theorem padding_identical_witness:
  "(10::int) mod 4 \<noteq> 0 \<and> booklet_pages 10 7 = booklet_pages 12 7"
  using padding_identical [of 10 7] by simp

text \<open>
  Claim C7. \<^verbatim>\<open>booklet_pages\<close> is stated to return normally for every \<open>n \<ge> 0\<close> and every
  \<open>start_page\<close> of any sign. What holds: for every such input the call never runs
  forever, and it returns the sequence exactly when \<^verbatim>\<open>n\<close>, \<^verbatim>\<open>start_page\<close>, the rounded
  count and the four page numbers of every sheet each have at most \<open>max_str_digits\<close>
  decimal digits; when one of them has more, building a log message raises
  \<^verbatim>\<open>ValueError\<close>. With no limit on the conversion (\<open>max_str_digits = 0\<close>) it returns for
  every input. The sign of \<open>start_page\<close> plays no part.
\<close>

theorem booklet_pages_returns_or_raises:
  assumes "0 \<le> n"
  shows "booklet_pages_log d n start_page =
           Some (if int_str_ok d n \<and> int_str_ok d start_page \<and>
                    int_str_ok d (n + (4 - n mod 4) mod 4) \<and>
                    list_all (sheet_str_ok d) (booklet_pages n start_page)
                 then Inr (booklet_pages n start_page) else Inl ValueError) \<and>
         booklet_pages_log 0 n start_page = Some (Inr (booklet_pages n start_page))"
proof -
  have gen: "booklet_pages_log e n start_page =
           Some (if int_str_ok e n \<and> int_str_ok e start_page \<and>
                    int_str_ok e (n + (4 - n mod 4) mod 4) \<and>
                    list_all (sheet_str_ok e) (booklet_pages n start_page)
                 then Inr (booklet_pages n start_page) else Inl ValueError)" for e
    unfolding booklet_pages_log_def booklet_pages_def Let_def booklet_while_log_result
    by simp
  have all0: "list_all (sheet_str_ok 0) xs" for xs
    by (induction xs) (simp_all add: sheet_str_ok_unlimited)
  have "booklet_pages_log 0 n start_page = Some (Inr (booklet_pages n start_page))"
    unfolding gen [of 0] using all0 by (simp add: int_str_ok_unlimited)
  with gen [of d] show ?thesis by blast
qed

theorem booklet_pages_returns_or_raises_witness:
  "(0::int) \<le> 7 \<and>
   booklet_pages_log 4300 7 (-5) = Some (Inr [(2, -5, -4, 1), (0, -3, -2, -1)]) \<and>
   booklet_pages_log 0 7 (-5) = Some (Inr [(2, -5, -4, 1), (0, -3, -2, -1)])"
proof -
  have v: "booklet_pages 7 (-5) = [(2, -5, -4, 1), (0, -3, -2, -1)]"
    by (simp add: booklet_pages_def booklet_loop.simps)
  have oks: "int_str_ok 4300 7" "int_str_ok 4300 (-5)" "int_str_ok 4300 8"
    by (rule int_str_ok_small, simp)+
  have sh: "list_all (sheet_str_ok 4300) [(2, -5, -4, 1), (0, -3, -2, -1)]"
    by (simp add: sheet_str_ok_def int_str_ok_small)
  from booklet_pages_returns_or_raises [of 7 4300 "-5"] oks sh show ?thesis
    unfolding v by simp
qed

text \<open>
  With the default limit of 4300 digits, \<^verbatim>\<open>booklet_pages(4, 10**4300)\<close> raises at line 25:
  the page count is not negative, and the call does not return normally.
\<close>

theorem booklet_pages_raises:
  "(0::int) \<le> 4 \<and> booklet_pages_log 4300 4 (10 ^ 4300) = Some (Inl ValueError)"
proof
  show "(0::int) \<le> 4" by simp
next
  have "\<not> int_str_ok 4300 (10 ^ 4300)" by (rule int_str_ok_power) simp
  then show "booklet_pages_log 4300 4 (10 ^ 4300) = Some (Inl ValueError)"
    by (rule booklet_pages_log_bad_start)
qed



text \<open>
  Claim C10. For every \<open>n \<ge> 0\<close> and every \<open>start_page\<close>, every sheet
  (outer-right, outer-left, inner-left, inner-right) of \<^verbatim>\<open>booklet_pages(n, start_page)\<close>
  has outer-right + outer-left = inner-right + inner-left =
  \<open>n' + 1 + 2 * (start_page - 1)\<close>, with \<open>n' = n + (4 - n % 4) % 4\<close>.
\<close>

theorem sheet_sums:
  assumes "0 \<le> n"
  shows "\<forall>(outer_right, outer_left, inner_left, inner_right) \<in> set (booklet_pages n start_page).
           outer_right + outer_left = (n + (4 - n mod 4) mod 4) + 1 + 2 * (start_page - 1) \<and>
           inner_right + inner_left = (n + (4 - n mod 4) mod 4) + 1 + 2 * (start_page - 1)"
proof -
  let ?n' = "n + (4 - n mod 4) mod 4"
  have "\<forall>(p1, p2, p3, p4) \<in> set (booklet_loop 1 ?n' (start_page - 1) []).
          p1 + p2 = ?n' + 1 + 2 * (start_page - 1) \<and> p4 + p3 = ?n' + 1 + 2 * (start_page - 1)"
    by (rule booklet_loop_sums) simp_all
  then show ?thesis by (simp add: booklet_pages_def Let_def)
qed

theorem sheet_sums_witness:
  "(0::int) \<le> 10 \<and> (10, 3, 4, 9) \<in> set (booklet_pages 10 1) \<and>
   (10::int) + 3 = 13 \<and> (9::int) + 4 = 13"
proof -
  have mem: "(10, 3, 4, 9) \<in> set (booklet_pages 10 1)"
    by (simp add: booklet_pages_def booklet_loop.simps)
  from sheet_sums [of 10 1] mem show ?thesis by auto
qed

end
